theory Spec2Isabelle
  imports Main "HOL-Library.Char_ord" "HOL-Library.List_Lexorder" "HOL-Library.Multiset"
begin

section \<open>Parallel sample sort of text records (SampleSort2.cpp, SequentialSort.cpp)\<close>

text \<open>
  The program is run by \<open>nproc\<close> MPI processes; process \<open>MASTER\<close> reads the input file,
  scatters the records, every process sorts and samples its share, the master chooses
  pivots, every process buckets its records by pivot, the buckets are exchanged, sorted
  again and gathered by the master, which writes the output file.

  The model is the sequential composition of these phases over the list of all processes'
  local vectors (entry \<open>p\<close> of such a list is what process \<open>p\<close> holds). MPI delivers the
  messages of one sender, receiver and tag in the order they were sent, so every blocking
  receive of the source is matched with the send that the model pairs it with. A send is
  taken to complete once issued (the library buffers it); whether the processes can block
  each other is outside this model.

  A record is a \<open>std::string\<close>: a list of bytes, compared byte-wise (as unsigned values)
  and then by length, which is the order of \<open>char list\<close> here. Counts, lengths and indices
  are \<open>int\<close> or \<open>size_t\<close> in the source and \<open>nat\<close> here: the model follows the source for
  inputs with fewer than \<open>2^31 - 1\<close> records, each shorter than \<open>2^31 - 1\<close> bytes, and
  for process counts of at least one.
\<close>

type_synonym sequence = string

datatype error = OutOfRange

definition MASTER :: nat where
  "MASTER = 0"

definition NUL :: char where
  "NUL = CHR 0x00"

definition NL :: char where
  "NL = CHR 0x0A"

subsection \<open>Files\<close>

text \<open>
  \<open>read_file\<close>: \<open>getline\<close> collects the bytes up to the next line feed or the end of the
  file; it fails, ending the loop, when the file is exhausted before a byte was taken.
  Empty lines are not stored.
\<close>

fun read_lines :: "char list \<Rightarrow> string \<Rightarrow> sequence list" where
  "read_lines [] line = (if line \<noteq> [] then [line] else [])"
| "read_lines (c # cs) line =
     (if c = NL
      then (if line \<noteq> [] then line # read_lines cs [] else read_lines cs [])
      else read_lines cs (line @ [c]))"

definition read_file :: "char list \<Rightarrow> sequence list" where
  "read_file contents = read_lines contents []"

definition write_file :: "sequence list \<Rightarrow> char list" where
  "write_file data = concat (map (\<lambda>seq. seq @ [NL]) data)"

subsection \<open>Local sorter\<close>

text \<open>
  \<open>std::sort\<close> leaves a non-decreasing permutation of the vector. The order on records is
  linear and equal records are the same value, so that permutation is unique; it is the
  one \<open>sort\<close> computes.
\<close>

definition sequential_sort :: "sequence list \<Rightarrow> sequence list" where
  "sequential_sort data = sort data"

subsection \<open>Record codec\<close>

text \<open>
  A record travels as two messages: \<open>len = s.size() + 1\<close>, then the first \<open>len\<close> bytes of
  \<open>s.c_str()\<close>, which are the bytes of the record followed by one NUL. The receiver
  allocates \<open>len\<close> bytes, receives into them and builds \<open>string(buf.data())\<close>: the bytes
  of the buffer before its first NUL.
\<close>

definition c_str :: "sequence \<Rightarrow> char list" where
  "c_str s = s @ [NUL]"

definition encode :: "sequence \<Rightarrow> nat \<times> char list" where
  "encode s = (let len = length s + 1 in (len, take len (c_str s)))"

definition decode :: "nat \<times> char list \<Rightarrow> sequence" where
  "decode msg = (let buf = take (fst msg) (snd msg) in takeWhile (\<lambda>c. c \<noteq> NUL) buf)"

definition transfer :: "sequence \<Rightarrow> sequence" where
  "transfer s = decode (encode s)"

subsection \<open>Scatter\<close>

definition share :: "nat \<Rightarrow> nat \<Rightarrow> nat \<Rightarrow> nat" where
  "share n nproc p = n div nproc + (if p < n mod nproc then 1 else 0)"

text \<open>
  The master walks the processes in index order with a running \<open>offset\<close>; its own share
  is copied from the front of \<open>all_data\<close>, every other share is sent record by record.
\<close>

fun scatter_loop :: "sequence list \<Rightarrow> nat \<Rightarrow> nat \<Rightarrow> nat list \<Rightarrow> nat \<Rightarrow> sequence list list" where
  "scatter_loop all_data n nproc [] offset = []"
| "scatter_loop all_data n nproc (p # ps) offset =
     (let count = share n nproc p;
          local_data = (if p = MASTER then take count all_data
                        else map transfer (take count (drop offset all_data)))
      in local_data # scatter_loop all_data n nproc ps (offset + count))"

definition scatter :: "nat \<Rightarrow> sequence list \<Rightarrow> sequence list list" where
  "scatter nproc all_data = scatter_loop all_data (length all_data) nproc [0..<nproc] 0"

subsection \<open>Sampler\<close>

fun sample_loop :: "nat list \<Rightarrow> nat \<Rightarrow> sequence list \<Rightarrow> sequence list" where
  "sample_loop [] s local_data = []"
| "sample_loop (i # is) s local_data =
     (let idx = i * length local_data div (s + 1)
      in if idx < length local_data
         then local_data ! idx # sample_loop is s local_data
         else sample_loop is s local_data)"

definition select_samples :: "nat \<Rightarrow> sequence list \<Rightarrow> sequence list" where
  "select_samples nproc local_data = (let s = nproc - 1 in sample_loop [1..<s + 1] s local_data)"

text \<open>The master starts from its own samples and appends what each other process sends.\<close>

definition gather_samples :: "sequence list list \<Rightarrow> sequence list" where
  "gather_samples samples =
     (case samples of [] \<Rightarrow> [] | own # others \<Rightarrow> own @ concat (map (map transfer) others))"

subsection \<open>Pivot selector\<close>

text \<open>
  \<open>gathered_samples[i * gathered_samples.size() / size]\<close> is read without a check; a read
  past the end of the vector is the error \<open>OutOfRange\<close>.
\<close>

fun pivot_loop :: "nat list \<Rightarrow> nat \<Rightarrow> sequence list \<Rightarrow> error + sequence list" where
  "pivot_loop [] nproc gathered = Inr []"
| "pivot_loop (i # is) nproc gathered =
     (let idx = i * length gathered div nproc
      in if idx < length gathered
         then (case pivot_loop is nproc gathered of
                 Inl e \<Rightarrow> Inl e
               | Inr pivots \<Rightarrow> Inr (gathered ! idx # pivots))
         else Inl OutOfRange)"

definition select_pivots :: "nat \<Rightarrow> sequence list \<Rightarrow> error + sequence list" where
  "select_pivots nproc gathered_samples = pivot_loop [1..<nproc] nproc (sort gathered_samples)"

text \<open>
  Each pivot is broadcast as a length and a buffer of that many bytes; the master fills
  the zeroed buffer with \<open>strcpy\<close>, and every process, the master too, replaces the pivot
  by \<open>string(buf.data())\<close>.
\<close>

definition bcast_pivots :: "sequence list \<Rightarrow> sequence list" where
  "bcast_pivots pivots = map transfer pivots"

subsection \<open>Partitioner\<close>

text \<open>
  \<open>std::upper_bound\<close> is the library's binary search: it halves the range
  \<open>[first, first + len)\<close> until it is empty.
\<close>

function ub_loop :: "sequence list \<Rightarrow> sequence \<Rightarrow> nat \<Rightarrow> nat \<Rightarrow> nat" where
  "ub_loop pivots val first len =
     (if 0 < len
      then (let half = len div 2; middle = first + half
            in if val < pivots ! middle
               then ub_loop pivots val first half
               else ub_loop pivots val (middle + 1) (len - half - 1))
      else first)"
  by pat_completeness auto
termination
  by (relation "measure (\<lambda>(pivots, val, first, len). len)") auto

declare ub_loop.simps [simp del]

definition upper_bound :: "sequence list \<Rightarrow> sequence \<Rightarrow> nat" where
  "upper_bound pivots val = ub_loop pivots val 0 (length pivots)"

fun partition_loop :: "sequence list \<Rightarrow> sequence list \<Rightarrow> sequence list list \<Rightarrow> sequence list list" where
  "partition_loop pivots [] buckets = buckets"
| "partition_loop pivots (seq # rest) buckets =
     (let pos = upper_bound pivots seq
      in partition_loop pivots rest (buckets[pos := buckets ! pos @ [seq] ]))"

definition partition_records :: "nat \<Rightarrow> sequence list \<Rightarrow> sequence list \<Rightarrow> sequence list list" where
  "partition_records nproc pivots local_data = partition_loop pivots local_data (replicate nproc [])"

subsection \<open>Exchange\<close>

text \<open>
  Process \<open>rank\<close> first moves its own bucket into \<open>new_local\<close> (sending the others), then
  receives, from each other process in index order, the bucket that process holds for it.
\<close>

definition exchange_recv :: "nat \<Rightarrow> sequence list list list \<Rightarrow> nat \<Rightarrow> sequence list" where
  "exchange_recv nproc buckets rank =
     buckets ! rank ! rank @
     concat (map (\<lambda>p. map transfer (buckets ! p ! rank)) (filter (\<lambda>p. p \<noteq> rank) [0..<nproc]))"

definition exchange :: "nat \<Rightarrow> sequence list list list \<Rightarrow> sequence list list" where
  "exchange nproc buckets = map (exchange_recv nproc buckets) [0..<nproc]"

subsection \<open>Gather and the whole run\<close>

definition gather_final :: "sequence list list \<Rightarrow> sequence list" where
  "gather_final new_locals =
     (case new_locals of [] \<Rightarrow> [] | own # others \<Rightarrow> own @ concat (map (map transfer) others))"

definition sample_sort :: "nat \<Rightarrow> sequence list \<Rightarrow> error + sequence list" where
  "sample_sort nproc all_data =
     (let locals = map sequential_sort (scatter nproc all_data);
          samples = map (select_samples nproc) locals;
          gathered_samples = gather_samples samples
      in case select_pivots nproc gathered_samples of
           Inl e \<Rightarrow> Inl e
         | Inr chosen \<Rightarrow>
             (let pivots = bcast_pivots chosen;
                  buckets = map (partition_records nproc pivots) locals;
                  new_locals = map sequential_sort (exchange nproc buckets)
              in Inr (gather_final new_locals)))"

text \<open>The two programs, from the bytes of the input file to the bytes of the output file.\<close>

definition parallel_main :: "nat \<Rightarrow> char list \<Rightarrow> error + char list" where
  "parallel_main nproc contents =
     (case sample_sort nproc (read_file contents) of
        Inl e \<Rightarrow> Inl e
      | Inr final_all \<Rightarrow> Inr (write_file final_all))"

definition sequential_main :: "char list \<Rightarrow> char list" where
  "sequential_main contents = write_file (sequential_sort (read_file contents))"

section \<open>Record codec: what a transfer does to a record\<close>

lemma transfer_eq: "transfer s = takeWhile (\<lambda>c. c \<noteq> NUL) s"
  by (induction s) (simp_all add: transfer_def encode_def decode_def c_str_def)

lemma transfer_id: "NUL \<notin> set s \<Longrightarrow> transfer s = s"
  by (auto simp: transfer_eq takeWhile_eq_all_conv)

lemma encode_terminated: "NUL \<in> set (take (fst (encode s)) (snd (encode s)))"
  by (simp add: encode_def c_str_def)

text \<open>
  C9, as the code has it: a record with no NUL byte is decoded to itself. (The buffer is
  read as a C string, so a record that holds a NUL byte comes out cut before that byte.)
\<close>

theorem codec_roundtrip_nul_free: "NUL \<notin> set r \<Longrightarrow> decode (encode r) = r"
  using transfer_id [of r] by (simp add: transfer_def)

theorem codec_roundtrip_nul_free_witness:
  "NUL \<notin> set ''ACGT'' \<and> decode (encode ''ACGT'') = ''ACGT''"
proof -
  have h: "NUL \<notin> set ''ACGT''" by (simp add: NUL_def)
  show ?thesis using h codec_roundtrip_nul_free [OF h] by simp
qed

theorem codec_roundtrip_counterexample:
  "decode (encode [CHR ''A'', NUL, CHR ''B'']) \<noteq> [CHR ''A'', NUL, CHR ''B'']"
  by (simp add: encode_def decode_def c_str_def)

section \<open>Sampler\<close>

lemma sample_loop_eq:
  "sample_loop is s l =
     map (\<lambda>idx. l ! idx) (filter (\<lambda>idx. idx < length l) (map (\<lambda>i. i * length l div (s + 1)) is))"
  by (induction "is") (simp_all add: Let_def)

lemma sample_index_less: "i < k \<Longrightarrow> 0 < n \<Longrightarrow> i * n div k < (n::nat)"
  by (simp add: less_mult_imp_div_less mult.commute)

lemma sample_loop_length:
  "\<forall>i\<in>set is. i * length l div (s + 1) < length l \<Longrightarrow> length (sample_loop is s l) = length is"
  by (induction "is") (simp_all add: Let_def)

lemma sample_loop_subset: "set (sample_loop is s l) \<subseteq> set l"
  by (induction "is") (auto simp: Let_def)

lemma select_samples_length:
  assumes "0 < length l"
  shows "length (select_samples k l) = k - 1"
proof -
  have "\<forall>i\<in>set [1..<k - 1 + 1]. i * length l div (k - 1 + 1) < length l"
    using assms by (auto intro: sample_index_less)
  then have "length (sample_loop [1..<k - 1 + 1] (k - 1) l) = length [1..<k - 1 + 1]"
    by (rule sample_loop_length)
  then show ?thesis
    by (simp add: select_samples_def Let_def del: upt_Suc)
qed

lemma select_samples_empty: "select_samples k [] = []"
  by (simp add: select_samples_def sample_loop_eq)

lemma select_samples_subset: "set (select_samples k l) \<subseteq> set l"
  by (simp add: select_samples_def Let_def sample_loop_subset del: upt_Suc)

text \<open>
  C6: with \<open>n\<close> the size of the local partition and \<open>s = nproc - 1\<close>, the samples are the
  records at the indices \<open>i * n div (s + 1)\<close> for \<open>i = 1, ..., s\<close>, in that order, without
  the indices that are not below \<open>n\<close>.
\<close>

theorem sampler_indices:
  "select_samples nproc local_data =
     (let n = length local_data; s = nproc - 1
      in map (\<lambda>idx. local_data ! idx)
           (filter (\<lambda>idx. idx < n) (map (\<lambda>i. i * n div (s + 1)) [1..<s + 1])))"
  by (simp add: select_samples_def Let_def sample_loop_eq del: upt_Suc)

text \<open>
  C7, as the code has it: a partition of size \<open>n\<close> with \<open>0 < n < s\<close> still contributes
  exactly \<open>s = nproc - 1\<close> samples (every index \<open>i * n div (s + 1)\<close> is below \<open>n\<close>, so no
  index is skipped and records are sampled more than once).
\<close>

theorem sampler_short_partition:
  "0 < length local_data \<Longrightarrow> length local_data < nproc - 1 \<Longrightarrow>
   length (select_samples nproc local_data) = nproc - 1"
  by (rule select_samples_length)

theorem sampler_short_partition_witness:
  "0 < length [''A''] \<and> length [''A''] < 3 - (1::nat) \<and>
   length (select_samples 3 [''A'']) = 3 - 1"
proof -
  have h1: "0 < length [''A'']" by simp
  have h2: "length [''A''] < 3 - (1::nat)" by simp
  show ?thesis using h1 h2 sampler_short_partition [OF h1 h2] by simp
qed

theorem sampler_short_partition_counterexample:
  "0 < length [''A''] \<and> length [''A''] < 3 - (1::nat) \<and>
   \<not> length (select_samples 3 [''A'']) < 3 - 1"
  by code_simp

text \<open>
  C8: for a partition of size \<open>n \<ge> 1\<close> and \<open>s = nproc - 1 \<ge> 1\<close>, every sampled index
  \<open>i * n div (s + 1)\<close>, \<open>i = 1, ..., s\<close>, is below \<open>n\<close> and exactly \<open>s\<close> samples are
  emitted; fewer than \<open>s\<close> samples are emitted only by an empty partition.
\<close>

theorem sampler_exactly_s:
  assumes "2 \<le> nproc"
  shows "(1 \<le> length local_data \<longrightarrow>
            (\<forall>i\<in>{1..nproc - 1}. i * length local_data div (nproc - 1 + 1) < length local_data) \<and>
            length (select_samples nproc local_data) = nproc - 1) \<and>
         (length (select_samples nproc local_data) < nproc - 1 \<longleftrightarrow> local_data = [])"
proof -
  have a: "\<forall>i\<in>{1..nproc - 1}. i * length local_data div (nproc - 1 + 1) < length local_data"
    if "1 \<le> length local_data"
    using that assms by (auto intro!: sample_index_less)
  have b: "length (select_samples nproc local_data) = nproc - 1" if "1 \<le> length local_data"
    using that select_samples_length [of local_data nproc] by (cases local_data) simp_all
  have c: "length (select_samples nproc local_data) < nproc - 1 \<longleftrightarrow> local_data = []"
  proof (cases local_data)
    case Nil
    then show ?thesis using assms by (simp add: select_samples_empty)
  next
    case (Cons a list)
    then show ?thesis by (simp add: select_samples_length)
  qed
  from a b c show ?thesis by blast
qed

theorem sampler_exactly_s_witness:
  "(2::nat) \<le> 3 \<and> 1 \<le> length [''A'', ''C''] \<and>
   1 * length [''A'', ''C''] div (3 - 1 + 1) < length [''A'', ''C''] \<and>
   2 * length [''A'', ''C''] div (3 - 1 + 1) < length [''A'', ''C''] \<and>
   length (select_samples 3 [''A'', ''C'']) = 3 - 1 \<and>
   length (select_samples 3 []) < 3 - 1"
proof -
  have h: "(2::nat) \<le> 3" by simp
  show ?thesis
    using h sampler_exactly_s [OF h, of "[''A'', ''C'']"] sampler_exactly_s [OF h, of "[]"]
    by simp
qed

section \<open>Partitioner\<close>

lemma ub_loop_0: "ub_loop ps v first 0 = first"
  by (simp add: ub_loop.simps [of ps v first 0])

lemma ub_loop_step:
  "0 < len \<Longrightarrow>
   ub_loop ps v first len =
     (if v < ps ! (first + len div 2) then ub_loop ps v first (len div 2)
      else ub_loop ps v (first + len div 2 + 1) (len - len div 2 - 1))"
  by (subst ub_loop.simps) (simp add: Let_def)

lemma ub_loop_range:
  "first \<le> ub_loop ps v first len \<and> ub_loop ps v first len \<le> first + len"
proof (induction ps v first len rule: ub_loop.induct)
  case (1 pivots val first len)
  show ?case
  proof (cases "0 < len")
    case False
    then show ?thesis by (simp add: ub_loop_0)
  next
    case True
    show ?thesis
    proof (cases "val < pivots ! (first + len div 2)")
      case lt: True
      have eq: "ub_loop pivots val first len = ub_loop pivots val first (len div 2)"
        using True lt by (simp add: ub_loop_step)
      have "len div 2 \<le> len" by simp
      with "1.IH"(1) [OF True refl refl lt] show ?thesis
        unfolding eq by linarith
    next
      case ge: False
      have "first + len div 2 + 1 + (len - len div 2 - 1) = first + len" using True by simp
      with "1.IH"(2) [OF True refl refl ge] True ge show ?thesis
        by (simp add: ub_loop_step)
    qed
  qed
qed

lemma upper_bound_le: "upper_bound ps v \<le> length ps"
  using ub_loop_range [of 0 ps v "length ps"] by (simp add: upper_bound_def)

lemma ub_loop_correct:
  assumes "sorted ps" "first + len \<le> length ps"
    and "\<forall>i<first. ps ! i \<le> v"
    and "\<forall>i. first + len \<le> i \<and> i < length ps \<longrightarrow> v < ps ! i"
  shows "(\<forall>i<ub_loop ps v first len. ps ! i \<le> v) \<and>
         (\<forall>i. ub_loop ps v first len \<le> i \<and> i < length ps \<longrightarrow> v < ps ! i)"
  using assms
proof (induction ps v first len rule: ub_loop.induct)
  case (1 pivots val first len)
  show ?case
  proof (cases "0 < len")
    case False
    with "1.prems" show ?thesis by (simp add: ub_loop_0)
  next
    case True
    let ?mid = "first + len div 2"
    have mid: "?mid < length pivots" using True "1.prems"(2) by simp
    show ?thesis
    proof (cases "val < pivots ! ?mid")
      case lt: True
      have up: "\<forall>i. first + len div 2 \<le> i \<and> i < length pivots \<longrightarrow> val < pivots ! i"
      proof (intro allI impI)
        fix i assume i: "first + len div 2 \<le> i \<and> i < length pivots"
        then have "pivots ! ?mid \<le> pivots ! i"
          using "1.prems"(1) by (simp add: sorted_nth_mono)
        with lt show "val < pivots ! i" by simp
      qed
      have "first + len div 2 \<le> length pivots" using mid by simp
      from "1.IH"(1) [OF True refl refl lt "1.prems"(1) this "1.prems"(3) up] True lt
      show ?thesis by (simp add: ub_loop_step)
    next
      case ge: False
      have lo: "\<forall>i<?mid + 1. pivots ! i \<le> val"
      proof (intro allI impI)
        fix i assume "i < ?mid + 1"
        then have "pivots ! i \<le> pivots ! ?mid"
          using "1.prems"(1) mid by (simp add: sorted_nth_mono)
        with ge show "pivots ! i \<le> val" by simp
      qed
      have e: "?mid + 1 + (len - len div 2 - 1) = first + len" using True by simp
      have b: "?mid + 1 + (len - len div 2 - 1) \<le> length pivots"
        using "1.prems"(2) e by simp
      have up: "\<forall>i. ?mid + 1 + (len - len div 2 - 1) \<le> i \<and> i < length pivots \<longrightarrow> val < pivots ! i"
        using "1.prems"(4) e by simp
      from "1.IH"(2) [OF True refl refl ge "1.prems"(1) b lo up] True ge
      show ?thesis by (simp add: ub_loop_step)
    qed
  qed
qed

lemma upper_bound_correct:
  assumes "sorted ps"
  shows "(\<forall>i<upper_bound ps v. ps ! i \<le> v) \<and>
         (\<forall>i. upper_bound ps v \<le> i \<and> i < length ps \<longrightarrow> v < ps ! i)"
proof -
  have a: "0 + length ps \<le> length ps" by simp
  have b: "\<forall>i<0. ps ! i \<le> v" by simp
  have c: "\<forall>i. 0 + length ps \<le> i \<and> i < length ps \<longrightarrow> v < ps ! i" by auto
  from ub_loop_correct [OF assms a b c] show ?thesis by (simp add: upper_bound_def)
qed

lemma upper_bound_Nil: "upper_bound [] v = 0"
  by (simp add: upper_bound_def ub_loop_0)

lemma partition_loop_length:
  "length (partition_loop ps xs buckets) = length buckets"
  by (induction xs arbitrary: buckets) (simp_all add: Let_def)

lemma partition_loop_nth:
  "\<forall>r\<in>set xs. upper_bound ps r < length buckets \<Longrightarrow> d < length buckets \<Longrightarrow>
   partition_loop ps xs buckets ! d = buckets ! d @ filter (\<lambda>r. upper_bound ps r = d) xs"
  by (induction xs arbitrary: buckets) (auto simp: Let_def nth_list_update)

lemma partition_records_length: "length (partition_records k ps xs) = k"
  by (simp add: partition_records_def partition_loop_length)

lemma partition_records_nth:
  assumes "length ps < k" "d < k"
  shows "partition_records k ps xs ! d = filter (\<lambda>r. upper_bound ps r = d) xs"
proof -
  have "\<forall>r\<in>set xs. upper_bound ps r < length (replicate k ([]::sequence list))"
    using assms(1) upper_bound_le [of ps] by (auto intro: le_less_trans)
  then show ?thesis
    using assms(2) by (simp add: partition_records_def partition_loop_nth)
qed

lemma singleton_list: "length xs = 1 \<Longrightarrow> xs = [xs ! 0]"
  by (cases xs) simp_all

lemma partition_records_single: "partition_records 1 [] xs = [xs]"
proof -
  have "partition_records 1 [] xs ! 0 = filter (\<lambda>r. upper_bound [] r = 0) xs"
    by (rule partition_records_nth) simp_all
  then have "partition_records 1 [] xs ! 0 = xs"
    by (simp add: upper_bound_Nil)
  moreover have "length (partition_records 1 [] xs) = 1"
    by (rule partition_records_length)
  ultimately show ?thesis
    using singleton_list [of "partition_records 1 [] xs"] by simp
qed

lemma bucket_bounds:
  assumes "sorted pivots" "upper_bound pivots x = d"
  shows "(0 < d \<longrightarrow> pivots ! (d - 1) \<le> x) \<and> (d < length pivots \<longrightarrow> x < pivots ! d)"
  using upper_bound_correct [OF assms(1), of x] assms(2) by auto

text \<open>
  C3: for non-decreasing pivots (\<open>nproc - 1\<close> of them) the destination \<open>d\<close> of a record
  \<open>r\<close> is the position of the first pivot greater than \<open>r\<close>: no pivot before \<open>d\<close> is
  greater, the pivot at \<open>d\<close> is, and \<open>d = nproc - 1\<close> when no pivot is greater. Bucket
  \<open>d\<close> receives exactly the records with destination \<open>d\<close>, so each of them lies between
  pivot \<open>d - 1\<close> (if any) and pivot \<open>d\<close> (if any). With no pivots every record stays in
  bucket 0.
\<close>

theorem partitioner_destination:
  assumes "sorted pivots" and "length pivots = nproc - 1" and "1 \<le> nproc"
  shows "(let d = upper_bound pivots r
          in d \<le> nproc - 1 \<and>
             (\<forall>j<d. pivots ! j \<le> r) \<and>
             (d < nproc - 1 \<longrightarrow> r < pivots ! d) \<and>
             ((\<forall>j<nproc - 1. \<not> r < pivots ! j) \<longrightarrow> d = nproc - 1)) \<and>
         (\<forall>d<nproc. partition_records nproc pivots local_data ! d =
                       filter (\<lambda>x. upper_bound pivots x = d) local_data) \<and>
         (\<forall>d<nproc. \<forall>x\<in>set (partition_records nproc pivots local_data ! d).
             (0 < d \<longrightarrow> pivots ! (d - 1) \<le> x) \<and> (d < nproc - 1 \<longrightarrow> x < pivots ! d)) \<and>
         partition_records 1 [] local_data = [local_data]"
proof -
  have len: "length pivots < nproc" using assms(2,3) by simp
  have le: "upper_bound pivots r \<le> nproc - 1"
    using upper_bound_le [of pivots r] assms(2) by simp
  have lo: "\<forall>j<upper_bound pivots r. pivots ! j \<le> r"
    using upper_bound_correct [OF assms(1), of r] by simp
  have hi: "upper_bound pivots r < nproc - 1 \<longrightarrow> r < pivots ! upper_bound pivots r"
    using upper_bound_correct [OF assms(1), of r] assms(2) by simp
  have none: "(\<forall>j<nproc - 1. \<not> r < pivots ! j) \<longrightarrow> upper_bound pivots r = nproc - 1"
    using le hi by (auto simp: le_less)
  have nth: "\<forall>d<nproc. partition_records nproc pivots local_data ! d =
                          filter (\<lambda>x. upper_bound pivots x = d) local_data"
    using len by (simp add: partition_records_nth)
  have rng: "\<forall>d<nproc. \<forall>x\<in>set (partition_records nproc pivots local_data ! d).
               (0 < d \<longrightarrow> pivots ! (d - 1) \<le> x) \<and> (d < nproc - 1 \<longrightarrow> x < pivots ! d)"
  proof (intro allI impI ballI)
    fix d x
    assume d: "d < nproc" and x: "x \<in> set (partition_records nproc pivots local_data ! d)"
    from x nth d have "upper_bound pivots x = d" by simp
    from bucket_bounds [OF assms(1) this] assms(2)
    show "(0 < d \<longrightarrow> pivots ! (d - 1) \<le> x) \<and> (d < nproc - 1 \<longrightarrow> x < pivots ! d)" by simp
  qed
  from le lo hi none nth rng partition_records_single show ?thesis
    by (simp add: Let_def)
qed

theorem partitioner_destination_witness: "sorted [''C'', ''G''] \<and> length [''C'', ''G''] = 3 - (1::nat) \<and> (1::nat) \<le> 3 \<and>
   upper_bound [''C'', ''G''] ''CC'' \<le> 3 - 1 \<and>
   [''C'', ''G''] ! 0 \<le> ''CC'' \<and> ''CC'' < [''C'', ''G''] ! 1 \<and>
   partition_records 3 [''C'', ''G''] [''TT'', ''AA'', ''CC''] ! 1 =
     filter (\<lambda>x. upper_bound [''C'', ''G''] x = 1) [''TT'', ''AA'', ''CC'']"
proof -
  have h1: "sorted [''C'', ''G'']" by simp
  have h2: "length [''C'', ''G''] = 3 - (1::nat)" by simp
  have h3: "(1::nat) \<le> 3" by simp
  have ub: "upper_bound [''C'', ''G''] ''CC'' = 1" by code_simp
  note t = partitioner_destination [OF h1 h2 h3, of "''CC''" "[''TT'', ''AA'', ''CC'']", unfolded Let_def]
  from t have a: "upper_bound [''C'', ''G''] ''CC'' \<le> 3 - 1" by (rule conjunct1 [OF conjunct1])
  from t have "\<forall>j<upper_bound [''C'', ''G''] ''CC''. [''C'', ''G''] ! j \<le> ''CC''" by blast
  then have b: "[''C'', ''G''] ! 0 \<le> ''CC''" unfolding ub by blast
  from t have "upper_bound [''C'', ''G''] ''CC'' < 3 - 1 \<longrightarrow> ''CC'' < [''C'', ''G''] ! upper_bound [''C'', ''G''] ''CC''"
    by blast
  then have c: "''CC'' < [''C'', ''G''] ! 1" unfolding ub by simp
  from t have "\<forall>d<3. partition_records 3 [''C'', ''G''] [''TT'', ''AA'', ''CC''] ! d =
     filter (\<lambda>x. upper_bound [''C'', ''G''] x = d) [''TT'', ''AA'', ''CC'']" by blast
  then have d: "partition_records 3 [''C'', ''G''] [''TT'', ''AA'', ''CC''] ! 1 =
     filter (\<lambda>x. upper_bound [''C'', ''G''] x = 1) [''TT'', ''AA'', ''CC'']" by simp
  from h1 h2 h3 a b c d show ?thesis by blast
qed

section \<open>Pivot selector\<close>

lemma pivot_loop_ok:
  "\<forall>i\<in>set is. i * length g div k < length g \<Longrightarrow>
   pivot_loop is k g = Inr (map (\<lambda>i. g ! (i * length g div k)) is)"
  by (induction "is") (simp_all add: Let_def)

lemma select_pivots_ok:
  assumes "gathered \<noteq> []"
  shows "select_pivots k gathered =
           Inr (map (\<lambda>i. sort gathered ! (i * length gathered div k)) [1..<k])"
proof -
  have "\<forall>i\<in>set [1..<k]. i * length (sort gathered) div k < length (sort gathered)"
    using assms by (auto intro: sample_index_less)
  from pivot_loop_ok [OF this] show ?thesis
    by (simp add: select_pivots_def)
qed

lemma select_pivots_single: "select_pivots (Suc 0) gathered = Inr []"
  by (simp add: select_pivots_def)

lemma sorted_picks:
  assumes "sorted g" "g \<noteq> []"
  shows "sorted (map (\<lambda>i. g ! (i * length g div k)) [1..<k])"
proof -
  have "sorted_wrt (\<lambda>x y. g ! (x * length g div k) \<le> g ! (y * length g div k)) [1..<k]"
  proof (rule sorted_wrt_mono_rel [of _ "(<)"])
    fix x y assume "x \<in> set [1..<k]" "y \<in> set [1..<k]" "x < y"
    then have "x * length g div k \<le> y * length g div k"
      by (simp add: div_le_mono)
    moreover have "y * length g div k < length g"
      using \<open>y \<in> set [1..<k]\<close> assms(2) by (auto intro: sample_index_less)
    ultimately show "g ! (x * length g div k) \<le> g ! (y * length g div k)"
      using assms(1) by (simp add: sorted_nth_mono)
  next
    show "sorted_wrt (<) [1..<k]" by simp
  qed
  then show ?thesis by (simp add: sorted_map)
qed

lemma gather_samples_length: "length (gather_samples ss) = sum_list (map length ss)"
  by (cases ss) (simp_all add: gather_samples_def length_concat comp_def)

text \<open>
  C4: with \<open>nproc \<ge> 2\<close> processes and \<open>m \<ge> 1\<close> samples in all, the selector returns
  \<open>nproc - 1\<close> pivots, pivot \<open>i\<close> being entry \<open>(i + 1) * m div nproc\<close> of the sorted
  concatenation of the gathered samples, and the pivots are non-decreasing.
\<close>

theorem pivot_selection:
  assumes "2 \<le> nproc" and "1 \<le> sum_list (map length sample_sets)"
  shows "\<exists>pivots. select_pivots nproc (gather_samples sample_sets) = Inr pivots \<and>
           length pivots = nproc - 1 \<and>
           (\<forall>i<nproc - 1. pivots ! i =
              sort (gather_samples sample_sets) !
                ((i + 1) * sum_list (map length sample_sets) div nproc)) \<and>
           sorted pivots"
proof -
  let ?g = "gather_samples sample_sets"
  let ?m = "sum_list (map length sample_sets)"
  let ?ps = "map (\<lambda>i. sort ?g ! (i * length ?g div nproc)) [1..<nproc]"
  have m: "length ?g = ?m" by (rule gather_samples_length)
  have "0 < length ?g" using m assms(2) by linarith
  then have ne: "?g \<noteq> []" by simp
  have sel: "select_pivots nproc ?g = Inr ?ps" by (rule select_pivots_ok [OF ne])
  have len: "length ?ps = nproc - 1" by simp
  have nth: "\<forall>i<nproc - 1. ?ps ! i = sort ?g ! ((i + 1) * ?m div nproc)"
    using m by simp
  have "sorted (map (\<lambda>i. sort ?g ! (i * length (sort ?g) div nproc)) [1..<nproc])"
  proof (rule sorted_picks)
    show "sorted (sort ?g)" by simp
    have "length (sort ?g) \<noteq> 0" using ne by simp
    then show "sort ?g \<noteq> []" by fastforce
  qed
  then have srt: "sorted ?ps" by simp
  from sel len nth srt show ?thesis by blast
qed

theorem pivot_selection_witness:
  "(2::nat) \<le> 2 \<and> 1 \<le> sum_list (map length [ [''TT''], [''CC''] ]) \<and>
   (\<exists>pivots. select_pivots 2 (gather_samples [ [''TT''], [''CC''] ]) = Inr pivots \<and>
      length pivots = 2 - 1 \<and>
      pivots ! 0 = sort (gather_samples [ [''TT''], [''CC''] ]) !
                     ((0 + 1) * sum_list (map length [ [''TT''], [''CC''] ]) div 2) \<and>
      sorted pivots)"
proof -
  have h1: "(2::nat) \<le> 2" by simp
  have h2: "1 \<le> sum_list (map length [ [''TT''], [''CC''] ])" by simp
  have z: "(0::nat) < 2 - 1" by simp
  from pivot_selection [OF h1 h2] obtain pivots where
    p: "select_pivots 2 (gather_samples [ [''TT''], [''CC''] ]) = Inr pivots"
       "length pivots = 2 - 1"
       "\<forall>i<2 - 1. pivots ! i = sort (gather_samples [ [''TT''], [''CC''] ]) !
                     ((i + 1) * sum_list (map length [ [''TT''], [''CC''] ]) div 2)"
       "sorted pivots"
    by blast
  from p(3) z have "pivots ! 0 = sort (gather_samples [ [''TT''], [''CC''] ]) !
                     ((0 + 1) * sum_list (map length [ [''TT''], [''CC''] ]) div 2)"
    by blast
  with h1 h2 p(1,2,4) show ?thesis by blast
qed

section \<open>Empty input\<close>

lemma scatter_loop_empty: "scatter_loop [] n k ps off = replicate (length ps) []"
  by (induction ps arbitrary: off) (simp_all add: Let_def)

lemma scatter_empty: "scatter k [] = replicate k []"
  by (simp add: scatter_def scatter_loop_empty)

lemma gather_samples_empty: "gather_samples (replicate k []) = []"
  by (cases k) (simp_all add: gather_samples_def)

lemma select_pivots_empty: "2 \<le> k \<Longrightarrow> select_pivots k [] = Inl OutOfRange"
  by (simp add: select_pivots_def upt_conv_Cons)

lemma sample_sort_empty: "2 \<le> k \<Longrightarrow> sample_sort k [] = Inl OutOfRange"
  by (simp add: sample_sort_def scatter_empty sequential_sort_def select_samples_empty
      gather_samples_empty select_pivots_empty)

text \<open>
  C5 fails on the code: on an empty input file and two processes no process has a
  sample, and the pivot selector reads entry 0 of the empty vector of gathered samples.
\<close>

theorem empty_input_two_processes:
  "sample_sort 2 (read_file []) = Inl OutOfRange \<and> parallel_main 2 [] = Inl OutOfRange"
  using sample_sort_empty [of 2] by (simp add: parallel_main_def read_file_def)

section \<open>One process\<close>

lemma scatter_single: "scatter (Suc 0) xs = [xs]"
  by (simp add: scatter_def share_def MASTER_def)

lemma select_samples_single: "select_samples (Suc 0) xs = []"
  by (simp add: select_samples_def)

lemma exchange_single: "exchange (Suc 0) [ [xs] ] = [xs]"
  by (simp add: exchange_def exchange_recv_def)

lemma sample_sort_single: "sample_sort 1 xs = Inr (sequential_sort xs)"
  by (simp add: sample_sort_def scatter_single select_samples_single gather_samples_def
      select_pivots_single bcast_pivots_def partition_records_single exchange_single
      gather_final_def sequential_sort_def sorted_sort_id
      partition_records_single [unfolded One_nat_def])

text \<open>
  C10: run by one process, the parallel program writes the sorted input, which is what
  the sequential program writes for the same input file.
\<close>

theorem single_process_is_plain_sort:
  "sample_sort 1 input = Inr (sort input) \<and>
   parallel_main 1 contents = Inr (sequential_main contents)"
  using sample_sort_single [of input] sample_sort_single [of "read_file contents"]
  by (simp add: parallel_main_def sequential_main_def sequential_sort_def)

section \<open>Record counts across the phases\<close>

lemma share_prefix_sum:
  "sum_list (map (share n k) [0..<p]) = p * (n div k) + min p (n mod k)"
  by (induction p) (auto simp: share_def min_def)

lemma share_total: "0 < k \<Longrightarrow> sum_list (map (share n k) [0..<k]) = n"
proof -
  assume k: "0 < k"
  then have "n mod k < k" by simp
  then have "min k (n mod k) = n mod k" by linarith
  then show ?thesis by (simp add: share_prefix_sum)
qed

lemma scatter_loop_length: "length (scatter_loop all_data n k ps off) = length ps"
  by (induction ps arbitrary: off) (simp_all add: Let_def)

lemma scatter_length: "length (scatter k all_data) = k"
  by (simp add: scatter_def scatter_loop_length)

lemma scatter_loop_concat:
  "MASTER \<notin> set ps \<Longrightarrow>
   concat (scatter_loop all_data n k ps off) =
     map transfer (take (sum_list (map (share n k) ps)) (drop off all_data))"
proof (induction ps arbitrary: off)
  case Nil
  then show ?case by simp
next
  case (Cons p ps)
  then have "concat (scatter_loop all_data n k ps (off + share n k p)) =
     map transfer (take (sum_list (map (share n k) ps)) (drop (off + share n k p) all_data))"
    by simp
  with Cons.prems show ?case
    by (simp add: Let_def take_add add.commute)
qed

lemma scatter_concat:
  assumes "0 < k"
  shows "concat (scatter k all_data) =
           take (share (length all_data) k 0) all_data @
           map transfer (drop (share (length all_data) k 0) all_data)"
proof -
  let ?n = "length all_data"
  have upt: "[0..<k] = 0 # [1..<k]" using assms by (simp add: upt_conv_Cons)
  have m: "MASTER \<notin> set [1..<k]" by (simp add: MASTER_def)
  have "sum_list (map (share ?n k) [0..<k]) = ?n" by (rule share_total [OF assms])
  then have tot: "share ?n k 0 + sum_list (map (share ?n k) [1..<k]) = ?n"
    unfolding upt by simp
  have "concat (scatter k all_data) =
          take (share ?n k 0) all_data @
          concat (scatter_loop all_data ?n k [1..<k] (0 + share ?n k 0))"
    unfolding scatter_def upt by (simp add: Let_def MASTER_def)
  also have "concat (scatter_loop all_data ?n k [1..<k] (0 + share ?n k 0)) =
      map transfer (take (sum_list (map (share ?n k) [1..<k])) (drop (0 + share ?n k 0) all_data))"
    by (rule scatter_loop_concat [OF m])
  also have "take (sum_list (map (share ?n k) [1..<k])) (drop (0 + share ?n k 0) all_data) =
      drop (share ?n k 0) all_data"
    using tot by simp
  finally show ?thesis .
qed

lemma scatter_total: "0 < k \<Longrightarrow> sum_list (map length (scatter k all_data)) = length all_data"
proof -
  assume k: "0 < k"
  have "sum_list (map length (scatter k all_data)) = length (concat (scatter k all_data))"
    by (simp add: length_concat)
  also have "\<dots> = length all_data"
    by (simp add: scatter_concat [OF k])
  finally show ?thesis .
qed

lemma partition_loop_total:
  "\<forall>r\<in>set xs. upper_bound ps r < length buckets \<Longrightarrow>
   sum_list (map length (partition_loop ps xs buckets)) = sum_list (map length buckets) + length xs"
proof (induction xs arbitrary: buckets)
  case Nil
  then show ?case by simp
next
  case (Cons x xs)
  let ?pos = "upper_bound ps x"
  let ?b = "buckets[?pos := buckets ! ?pos @ [x] ]"
  have pos: "?pos < length buckets" using Cons.prems by simp
  have "\<forall>r\<in>set xs. upper_bound ps r < length ?b" using Cons.prems by simp
  from Cons.IH [OF this]
  have "sum_list (map length (partition_loop ps xs ?b)) = sum_list (map length ?b) + length xs" .
  moreover have "sum_list (map length ?b) = sum_list (map length buckets) + 1"
    using pos by (simp add: map_update sum_list_update)
  ultimately show ?case by (simp add: Let_def)
qed

lemma partition_records_total:
  assumes "length ps < k"
  shows "sum_list (map length (partition_records k ps xs)) = length xs"
proof -
  have "\<forall>r\<in>set xs. upper_bound ps r < length (replicate k ([]::sequence list))"
    using assms upper_bound_le [of ps] by (auto intro: le_less_trans)
  from partition_loop_total [OF this] show ?thesis
    by (simp add: partition_records_def)
qed

lemma sum_list_without:
  fixes f :: "nat \<Rightarrow> 'a::comm_monoid_add"
  assumes "q < k"
  shows "f q + sum_list (map f (filter (\<lambda>p. p \<noteq> q) [0..<k])) = sum_list (map f [0..<k])"
proof -
  have s: "set (filter (\<lambda>p. p \<noteq> q) [0..<k]) = {0..<k} - {q}" by auto
  have "sum_list (map f (filter (\<lambda>p. p \<noteq> q) [0..<k])) = sum f ({0..<k} - {q})"
    by (simp add: sum_list_distinct_conv_sum_set s del: set_filter)
  moreover have "sum_list (map f [0..<k]) = sum f {0..<k}"
    by (simp add: sum_list_distinct_conv_sum_set)
  moreover have "sum f {0..<k} = f q + sum f ({0..<k} - {q})"
    using assms by (simp add: sum.remove)
  ultimately show ?thesis by simp
qed

lemma length_by_destination:
  "\<forall>x\<in>set xs. u x < k \<Longrightarrow>
   sum_list (map (\<lambda>q. length (filter (\<lambda>x. u x = q) xs)) [0..<k]) = length xs"
proof (induction xs)
  case Nil
  then show ?case by simp
next
  case (Cons x xs)
  have "sum_list (map (\<lambda>q. length (filter (\<lambda>y. u y = q) (x # xs))) [0..<k]) =
        sum_list (map (\<lambda>q. (if u x = q then 1 else 0) + length (filter (\<lambda>y. u y = q) xs)) [0..<k])"
    by (intro arg_cong [where f = sum_list] map_cong) auto
  also have "\<dots> = sum_list (map (\<lambda>q. if u x = q then 1 else 0) [0..<k]) +
                    sum_list (map (\<lambda>q. length (filter (\<lambda>y. u y = q) xs)) [0..<k])"
    by (simp add: sum_list_addf)
  also have "sum_list (map (\<lambda>q. if u x = q then 1 else 0) [0..<k]) = (1::nat)"
    using Cons.prems by (simp add: sum_list_distinct_conv_sum_set)
  finally show ?case using Cons by simp
qed

lemma mset_by_destination:
  "\<forall>x\<in>set xs. u x < k \<Longrightarrow>
   sum_list (map (\<lambda>q. mset (filter (\<lambda>x. u x = q) xs)) [0..<k]) = mset xs"
proof (induction xs)
  case Nil
  then show ?case by (simp add: sum_list_distinct_conv_sum_set)
next
  case (Cons x xs)
  have "sum_list (map (\<lambda>q. mset (filter (\<lambda>y. u y = q) (x # xs))) [0..<k]) =
        sum_list (map (\<lambda>q. (if u x = q then {#x#} else {#}) + mset (filter (\<lambda>y. u y = q) xs)) [0..<k])"
    by (intro arg_cong [where f = sum_list] map_cong) auto
  also have "\<dots> = sum_list (map (\<lambda>q. if u x = q then {#x#} else {#}) [0..<k]) +
                    sum_list (map (\<lambda>q. mset (filter (\<lambda>y. u y = q) xs)) [0..<k])"
    by (simp add: sum_list_addf)
  also have "sum_list (map (\<lambda>q. if u x = q then {#x#} else {#}) [0..<k]) = {#x#}"
    using Cons.prems by (simp add: sum_list_distinct_conv_sum_set)
  finally show ?case using Cons by simp
qed

lemma map_nth_upt: "map (\<lambda>p. f (xs ! p)) [0..<length xs] = map f xs"
proof -
  have "map (\<lambda>p. f (xs ! p)) [0..<length xs] = map f (map (\<lambda>p. xs ! p) [0..<length xs])"
    by simp
  then show ?thesis by (simp only: map_nth)
qed

lemma buckets_nth:
  assumes "length ps < k" "p < length locals" "q < k"
  shows "map (partition_records k ps) locals ! p ! q =
           filter (\<lambda>r. upper_bound ps r = q) (locals ! p)"
  using assms by (simp add: partition_records_nth)

lemma exchange_recv_length:
  assumes "q < k" "length locals = k" "length ps < k"
  shows "length (exchange_recv k (map (partition_records k ps) locals) q) =
           length (filter (\<lambda>r. upper_bound ps r = q) (concat locals))"
proof -
  let ?B = "map (partition_records k ps) locals"
  let ?P = "\<lambda>r. upper_bound ps r = q"
  have "length (exchange_recv k ?B q) =
          length (?B ! q ! q) + sum_list (map (\<lambda>p. length (?B ! p ! q)) (filter (\<lambda>p. p \<noteq> q) [0..<k]))"
    by (simp add: exchange_recv_def length_concat comp_def)
  also have "\<dots> = sum_list (map (\<lambda>p. length (?B ! p ! q)) [0..<k])"
    by (rule sum_list_without [OF assms(1)])
  also have "\<dots> = sum_list (map (\<lambda>p. length (filter ?P (locals ! p))) [0..<k])"
    by (intro arg_cong [where f = sum_list] map_cong refl)
       (use assms in \<open>simp add: partition_records_nth\<close>)
  also have "\<dots> = sum_list (map (\<lambda>l. length (filter ?P l)) locals)"
    using map_nth_upt [of "\<lambda>l. length (filter ?P l)" locals] assms(2) by simp
  also have "\<dots> = length (filter ?P (concat locals))"
    by (simp add: filter_concat length_concat comp_def)
  finally show ?thesis .
qed

lemma exchange_length: "length (exchange k B) = k"
  by (simp add: exchange_def)

lemma exchange_total:
  assumes "length locals = k" "length ps < k"
  shows "sum_list (map length (exchange k (map (partition_records k ps) locals))) =
           sum_list (map length locals)"
proof -
  let ?B = "map (partition_records k ps) locals"
  let ?L = "concat locals"
  have "sum_list (map length (exchange k ?B)) =
          sum_list (map (\<lambda>q. length (exchange_recv k ?B q)) [0..<k])"
    by (simp add: exchange_def comp_def)
  also have "\<dots> = sum_list (map (\<lambda>q. length (filter (\<lambda>r. upper_bound ps r = q) ?L)) [0..<k])"
    by (intro arg_cong [where f = sum_list] map_cong refl)
       (use assms in \<open>simp add: exchange_recv_length\<close>)
  also have "\<dots> = length ?L"
  proof (rule length_by_destination)
    show "\<forall>x\<in>set ?L. upper_bound ps x < k"
      using assms(2) upper_bound_le [of ps] by (auto intro: le_less_trans)
  qed
  finally show ?thesis by (simp add: length_concat)
qed

lemma gather_final_length: "length (gather_final xs) = sum_list (map length xs)"
  by (cases xs) (simp_all add: gather_final_def length_concat comp_def)

lemma sorted_locals_total:
  "sum_list (map length (map sequential_sort xs)) = sum_list (map length xs)"
  by (simp add: comp_def sequential_sort_def)

lemma buckets_total:
  assumes "length ps < k"
  shows "sum_list (map (\<lambda>b. sum_list (map length b)) (map (partition_records k ps) locals)) =
           sum_list (map length locals)"
  using assms by (simp add: comp_def partition_records_total)

lemma pivot_loop_length: "pivot_loop is k g = Inr ps \<Longrightarrow> length ps = length is"
  by (induction "is" arbitrary: ps) (auto simp: Let_def split: if_splits sum.splits)

lemma select_pivots_length: "select_pivots k g = Inr ps \<Longrightarrow> length ps = k - 1"
  by (auto simp: select_pivots_def dest: pivot_loop_length)

text \<open>
  C2: for \<open>nproc \<ge> 1\<close> processes, whatever the \<open>nproc - 1\<close> pivots are, the sizes of all
  processes' partitions add up to the number of input records after the scatter, after
  the local sort, after partitioning (all buckets of all processes), after the exchange
  and after the final sort, and the gathered output has that many records; so does the
  output of every run that completes.
\<close>

theorem conservation:
  assumes "1 \<le> nproc" and "length pivots = nproc - 1"
  shows "(let n = length all_data;
              parts = scatter nproc all_data;
              locals = map sequential_sort parts;
              buckets = map (partition_records nproc pivots) locals;
              received = exchange nproc buckets;
              new_locals = map sequential_sort received
          in sum_list (map length parts) = n \<and>
             sum_list (map length locals) = n \<and>
             sum_list (map (\<lambda>b. sum_list (map length b)) buckets) = n \<and>
             sum_list (map length received) = n \<and>
             sum_list (map length new_locals) = n \<and>
             length (gather_final new_locals) = n) \<and>
         (\<forall>final_all. sample_sort nproc all_data = Inr final_all \<longrightarrow>
                      length final_all = length all_data)"
proof -
  let ?n = "length all_data"
  let ?parts = "scatter nproc all_data"
  let ?locals = "map sequential_sort ?parts"
  have k: "0 < nproc" using assms(1) by simp
  have a: "sum_list (map length ?parts) = ?n" by (rule scatter_total [OF k])
  have b: "sum_list (map length ?locals) = ?n"
    using a by (simp only: sorted_locals_total)
  have ll: "length ?locals = nproc" by (simp add: scatter_length)
  have phases: "sum_list (map (\<lambda>b. sum_list (map length b)) (map (partition_records nproc ps) ?locals)) = ?n \<and>
      sum_list (map length (exchange nproc (map (partition_records nproc ps) ?locals))) = ?n \<and>
      sum_list (map length (map sequential_sort (exchange nproc (map (partition_records nproc ps) ?locals)))) = ?n \<and>
      length (gather_final (map sequential_sort (exchange nproc (map (partition_records nproc ps) ?locals)))) = ?n"
    if "length ps = nproc - 1" for ps
  proof -
    have lp: "length ps < nproc" using that k by simp
    have c: "sum_list (map (\<lambda>b. sum_list (map length b)) (map (partition_records nproc ps) ?locals)) = ?n"
      using buckets_total [OF lp, of ?locals] b by simp
    have d: "sum_list (map length (exchange nproc (map (partition_records nproc ps) ?locals))) = ?n"
      using exchange_total [OF ll lp] b by simp
    have e: "sum_list (map length (map sequential_sort (exchange nproc (map (partition_records nproc ps) ?locals)))) = ?n"
      using d by (simp only: sorted_locals_total)
    have f: "length (gather_final (map sequential_sort (exchange nproc (map (partition_records nproc ps) ?locals)))) = ?n"
      using e by (simp only: gather_final_length)
    from c d e f show ?thesis by blast
  qed
  have run: "\<forall>final_all. sample_sort nproc all_data = Inr final_all \<longrightarrow> length final_all = ?n"
  proof (intro allI impI)
    fix final_all assume r: "sample_sort nproc all_data = Inr final_all"
    then obtain chosen where
      ch: "select_pivots nproc (gather_samples (map (select_samples nproc) ?locals)) = Inr chosen"
      and out: "final_all = gather_final (map sequential_sort
                  (exchange nproc (map (partition_records nproc (bcast_pivots chosen)) ?locals)))"
      by (auto simp: sample_sort_def Let_def split: sum.splits)
    have "length (bcast_pivots chosen) = nproc - 1"
      using select_pivots_length [OF ch] by (simp add: bcast_pivots_def)
    from phases [OF this] out show "length final_all = ?n" by simp
  qed
  from a b phases [OF assms(2)] run show ?thesis
    unfolding Let_def by blast
qed

theorem conservation_witness:
  "(1::nat) \<le> 2 \<and> length [''C''] = 2 - (1::nat) \<and>
   sum_list (map length (scatter 2 [''TT'', ''AA'', ''GG''])) = length [''TT'', ''AA'', ''GG''] \<and>
   sum_list (map length (exchange 2 (map (partition_records 2 [''C''])
      (map sequential_sort (scatter 2 [''TT'', ''AA'', ''GG'']))))) = length [''TT'', ''AA'', ''GG''] \<and>
   length (gather_final (map sequential_sort (exchange 2 (map (partition_records 2 [''C''])
      (map sequential_sort (scatter 2 [''TT'', ''AA'', ''GG'']))))))  = length [''TT'', ''AA'', ''GG''] \<and>
   sample_sort 2 [''TT'', ''AA'', ''GG''] = Inr [''AA'', ''GG'', ''TT''] \<and>
   length [''AA'', ''GG'', ''TT''] = length [''TT'', ''AA'', ''GG'']"
proof -
  have h1: "(1::nat) \<le> 2" by simp
  have h2: "length [''C''] = 2 - (1::nat)" by simp
  note t = conservation [OF h1 h2, of "[''TT'', ''AA'', ''GG'']", unfolded Let_def]
  have run: "sample_sort 2 [''TT'', ''AA'', ''GG''] = Inr [''AA'', ''GG'', ''TT'']" by code_simp
  from t have a: "sum_list (map length (scatter 2 [''TT'', ''AA'', ''GG''])) = length [''TT'', ''AA'', ''GG'']"
    by blast
  from t have b: "sum_list (map length (exchange 2 (map (partition_records 2 [''C''])
      (map sequential_sort (scatter 2 [''TT'', ''AA'', ''GG'']))))) = length [''TT'', ''AA'', ''GG'']"
    by blast
  from t have c: "length (gather_final (map sequential_sort (exchange 2 (map (partition_records 2 [''C''])
      (map sequential_sort (scatter 2 [''TT'', ''AA'', ''GG'']))))))  = length [''TT'', ''AA'', ''GG'']"
    by blast
  from t run have d: "length [''AA'', ''GG'', ''TT''] = length [''TT'', ''AA'', ''GG'']"
    by blast
  from h1 h2 a b c run d show ?thesis by blast
qed

section \<open>The whole run on records without NUL bytes\<close>

lemma map_transfer_id: "\<forall>r\<in>set xs. NUL \<notin> set r \<Longrightarrow> map transfer xs = xs"
  by (induction xs) (simp_all add: transfer_id)

lemma scatter_concat_clean:
  assumes "0 < k" "\<forall>r\<in>set all_data. NUL \<notin> set r"
  shows "concat (scatter k all_data) = all_data"
proof -
  have "\<forall>r\<in>set (drop (share (length all_data) k 0) all_data). NUL \<notin> set r"
    using assms(2) by (auto dest: in_set_dropD)
  then show ?thesis
    by (simp add: scatter_concat [OF assms(1)] map_transfer_id)
qed

lemma share_master_pos:
  assumes "0 < k" "0 < n"
  shows "0 < share n k 0"
proof (cases "n div k = 0")
  case True
  have "n = k * (n div k) + n mod k" by simp
  with True have "n mod k = n" by simp
  with assms(2) show ?thesis by (simp add: share_def)
next
  case False
  then show ?thesis by (simp add: share_def)
qed

lemma scatter_master_nonempty:
  assumes "0 < k" "all_data \<noteq> []"
  shows "scatter k all_data ! 0 \<noteq> []"
proof -
  have upt: "[0..<k] = 0 # [1..<k]" using assms(1) by (simp add: upt_conv_Cons)
  have "scatter k all_data ! 0 = take (share (length all_data) k 0) all_data"
    unfolding scatter_def upt by (simp add: Let_def MASTER_def)
  moreover have "0 < share (length all_data) k 0"
    using assms by (simp add: share_master_pos)
  ultimately show ?thesis using assms(2) by simp
qed

lemma mset_sorted_locals: "mset (concat (map sequential_sort xs)) = mset (concat xs)"
  by (simp add: mset_concat comp_def sequential_sort_def)

lemma gather_samples_clean:
  "\<forall>r\<in>set (concat ss). NUL \<notin> set r \<Longrightarrow> gather_samples ss = concat ss"
proof (cases ss)
  case Nil
  then show ?thesis by (simp add: gather_samples_def)
next
  case (Cons own others)
  assume "\<forall>r\<in>set (concat ss). NUL \<notin> set r"
  with Cons have "\<forall>l\<in>set others. map transfer l = l"
    by (auto intro: map_transfer_id)
  then have "map (map transfer) others = others" by (simp add: map_idI)
  with Cons show ?thesis by (simp add: gather_samples_def)
qed

lemma gather_final_clean:
  "\<forall>r\<in>set (concat ss). NUL \<notin> set r \<Longrightarrow> gather_final ss = concat ss"
  using gather_samples_clean [of ss] by (simp add: gather_final_def gather_samples_def)

lemma gather_samples_nonempty:
  "ss \<noteq> [] \<Longrightarrow> ss ! 0 \<noteq> [] \<Longrightarrow> gather_samples ss \<noteq> []"
  by (cases ss) (simp_all add: gather_samples_def)

lemma select_pivots_sound:
  assumes "g \<noteq> [] \<or> k = 1"
  shows "\<exists>chosen. select_pivots k g = Inr chosen \<and> sorted chosen \<and>
           set chosen \<subseteq> set g \<and> length chosen = k - 1"
proof (cases "g = []")
  case True
  with assms have "k = 1" by simp
  then show ?thesis by (simp add: select_pivots_def)
next
  case False
  let ?ps = "map (\<lambda>i. sort g ! (i * length g div k)) [1..<k]"
  have sel: "select_pivots k g = Inr ?ps" by (rule select_pivots_ok [OF False])
  have "sorted (map (\<lambda>i. sort g ! (i * length (sort g) div k)) [1..<k])"
  proof (rule sorted_picks)
    show "sorted (sort g)" by simp
    have "length (sort g) \<noteq> 0" using False by simp
    then show "sort g \<noteq> []" by fastforce
  qed
  then have srt: "sorted ?ps" by simp
  have sub: "set ?ps \<subseteq> set g"
  proof
    fix x assume "x \<in> set ?ps"
    then obtain i where i: "i \<in> set [1..<k]" and x: "x = sort g ! (i * length g div k)" by auto
    have "i * length g div k < length g"
      using i False by (auto intro: sample_index_less)
    then have "i * length g div k < length (sort g)" by simp
    then have "sort g ! (i * length g div k) \<in> set (sort g)" by (rule nth_mem)
    with x show "x \<in> set g" by simp
  qed
  from sel srt sub show ?thesis by simp
qed

lemma sorted_concatI:
  "\<forall>xs\<in>set xss. sorted xs \<Longrightarrow>
   \<forall>i j. i < j \<and> j < length xss \<longrightarrow> (\<forall>x\<in>set (xss ! i). \<forall>y\<in>set (xss ! j). x \<le> y) \<Longrightarrow>
   sorted (concat xss)"
proof (induction xss)
  case Nil
  then show ?case by simp
next
  case (Cons xs xss)
  have tl: "\<forall>i j. i < j \<and> j < length xss \<longrightarrow> (\<forall>x\<in>set (xss ! i). \<forall>y\<in>set (xss ! j). x \<le> y)"
  proof (intro allI impI)
    fix i j assume "i < j \<and> j < length xss"
    then have "Suc i < Suc j \<and> Suc j < length (xs # xss)" by simp
    with Cons.prems(2) have "\<forall>x\<in>set ((xs # xss) ! Suc i). \<forall>y\<in>set ((xs # xss) ! Suc j). x \<le> y"
      by blast
    then show "\<forall>x\<in>set (xss ! i). \<forall>y\<in>set (xss ! j). x \<le> y" by simp
  qed
  have hd: "\<forall>x\<in>set xs. \<forall>y\<in>set (concat xss). x \<le> y"
  proof (intro ballI)
    fix x y assume x: "x \<in> set xs" and "y \<in> set (concat xss)"
    then obtain ys where "ys \<in> set xss" "y \<in> set ys" by auto
    then obtain j where j: "j < length xss" "xss ! j = ys" by (auto simp: in_set_conv_nth)
    then have "0 < Suc j \<and> Suc j < length (xs # xss)" by simp
    with Cons.prems(2) have "\<forall>x\<in>set ((xs # xss) ! 0). \<forall>y\<in>set ((xs # xss) ! Suc j). x \<le> y"
      by blast
    with x j \<open>y \<in> set ys\<close> show "x \<le> y" by simp
  qed
  from Cons.IH [OF _ tl] Cons.prems(1) have "sorted (concat xss)" by simp
  with hd Cons.prems(1) show ?case by (simp add: sorted_append)
qed

lemma destination_order:
  assumes "sorted ps" "upper_bound ps x < upper_bound ps y"
  shows "x \<le> y"
proof -
  let ?q = "upper_bound ps x"
  have "?q < length ps" using assms(2) upper_bound_le [of ps y] by simp
  then have "x < ps ! ?q" using upper_bound_correct [OF assms(1), of x] by simp
  moreover have "ps ! ?q \<le> y" using upper_bound_correct [OF assms(1), of y] assms(2) by simp
  ultimately show ?thesis by simp
qed

lemma exchange_recv_mset:
  assumes "q < k" "length locals = k" "length ps < k"
    and clean: "\<forall>r\<in>set (concat locals). NUL \<notin> set r"
  shows "mset (exchange_recv k (map (partition_records k ps) locals) q) =
           mset (filter (\<lambda>r. upper_bound ps r = q) (concat locals))"
proof -
  let ?B = "map (partition_records k ps) locals"
  let ?P = "\<lambda>r. upper_bound ps r = q"
  have bq: "?B ! p ! q = filter ?P (locals ! p)" if "p < k" for p
    using that assms(1,2,3) by (simp add: partition_records_nth)
  have cl: "map transfer (?B ! p ! q) = ?B ! p ! q" if "p < k" for p
  proof (rule map_transfer_id, intro ballI)
    fix r assume "r \<in> set (?B ! p ! q)"
    then have "r \<in> set (locals ! p)" using bq [OF that] by simp
    moreover have "locals ! p \<in> set locals" using that assms(2) by simp
    ultimately have "r \<in> set (concat locals)" by auto
    with clean show "NUL \<notin> set r" by blast
  qed
  have "map (\<lambda>p. map transfer (?B ! p ! q)) (filter (\<lambda>p. p \<noteq> q) [0..<k]) =
        map (\<lambda>p. ?B ! p ! q) (filter (\<lambda>p. p \<noteq> q) [0..<k])"
    by (rule map_cong [OF refl]) (simp add: cl)
  then have "exchange_recv k ?B q =
               ?B ! q ! q @ concat (map (\<lambda>p. ?B ! p ! q) (filter (\<lambda>p. p \<noteq> q) [0..<k]))"
    by (simp only: exchange_recv_def)
  then have "mset (exchange_recv k ?B q) =
               mset (?B ! q ! q) +
               sum_list (map (\<lambda>p. mset (?B ! p ! q)) (filter (\<lambda>p. p \<noteq> q) [0..<k]))"
    by (simp add: mset_concat comp_def)
  also have "\<dots> = sum_list (map (\<lambda>p. mset (?B ! p ! q)) [0..<k])"
    by (rule sum_list_without [OF assms(1)])
  also have "\<dots> = sum_list (map (\<lambda>p. mset (filter ?P (locals ! p))) [0..<k])"
    by (intro arg_cong [where f = sum_list] map_cong refl) (simp add: bq)
  also have "\<dots> = sum_list (map (\<lambda>l. mset (filter ?P l)) locals)"
    using map_nth_upt [of "\<lambda>l. mset (filter ?P l)" locals] assms(2) by simp
  also have "\<dots> = mset (filter ?P (concat locals))"
    by (simp add: filter_concat mset_concat comp_def)
  finally show ?thesis .
qed

lemma pipeline_clean:
  assumes k: "0 < k" and len: "length locals = k" and lps: "length ps = k - 1"
    and srt: "sorted ps"
    and clean: "\<forall>r\<in>set (concat locals). NUL \<notin> set r"
  shows "gather_final (map sequential_sort (exchange k (map (partition_records k ps) locals))) =
           concat (map sequential_sort (exchange k (map (partition_records k ps) locals))) \<and>
         sorted (concat (map sequential_sort (exchange k (map (partition_records k ps) locals)))) \<and>
         mset (concat (map sequential_sort (exchange k (map (partition_records k ps) locals)))) =
           mset (concat locals)"
proof -
  let ?B = "map (partition_records k ps) locals"
  let ?L = "concat locals"
  let ?N = "map sequential_sort (exchange k ?B)"
  have lp: "length ps < k" using k lps by simp
  have lenN: "length ?N = k" by (simp add: exchange_def)
  have nthN: "?N ! q = sort (exchange_recv k ?B q)" if "q < k" for q
    using that by (simp add: exchange_def sequential_sort_def)
  have msN: "mset (?N ! q) = mset (filter (\<lambda>r. upper_bound ps r = q) ?L)" if "q < k" for q
    using exchange_recv_mset [OF that len lp clean] nthN [OF that] by simp
  have setN: "set (?N ! q) = {r \<in> set ?L. upper_bound ps r = q}" if "q < k" for q
  proof -
    have "set_mset (mset (?N ! q)) = set_mset (mset (filter (\<lambda>r. upper_bound ps r = q) ?L))"
      using msN [OF that] by simp
    then show ?thesis by (simp only: set_mset_mset set_filter)
  qed
  have sub: "set (concat ?N) \<subseteq> set ?L"
  proof
    fix r assume "r \<in> set (concat ?N)"
    then obtain xs where "xs \<in> set ?N" "r \<in> set xs" by auto
    then obtain q where "q < k" "?N ! q = xs" using lenN by (auto simp: in_set_conv_nth)
    with setN \<open>r \<in> set xs\<close> show "r \<in> set ?L" by blast
  qed
  have g: "gather_final ?N = concat ?N"
  proof (rule gather_final_clean, intro ballI)
    fix r assume "r \<in> set (concat ?N)"
    with sub clean show "NUL \<notin> set r" by blast
  qed
  have s: "sorted (concat ?N)"
  proof (rule sorted_concatI)
    show "\<forall>xs\<in>set ?N. sorted xs" by (auto simp: sequential_sort_def)
    show "\<forall>i j. i < j \<and> j < length ?N \<longrightarrow> (\<forall>x\<in>set (?N ! i). \<forall>y\<in>set (?N ! j). x \<le> y)"
    proof (intro allI impI ballI)
      fix i j x y
      assume ij: "i < j \<and> j < length ?N" and x: "x \<in> set (?N ! i)" and y: "y \<in> set (?N ! j)"
      from ij lenN have i: "i < k" and j: "j < k" by simp_all
      from x setN [OF i] have "upper_bound ps x = i" by simp
      moreover from y setN [OF j] have "upper_bound ps y = j" by simp
      ultimately have "upper_bound ps x < upper_bound ps y" using ij by simp
      then show "x \<le> y" by (rule destination_order [OF srt])
    qed
  qed
  have "mset (concat ?N) = sum_list (map mset ?N)" by (simp add: mset_concat)
  also have "\<dots> = sum_list (map (\<lambda>q. mset (?N ! q)) [0..<k])"
    using map_nth_upt [of mset ?N] lenN by simp
  also have "\<dots> = sum_list (map (\<lambda>q. mset (filter (\<lambda>r. upper_bound ps r = q) ?L)) [0..<k])"
    by (intro arg_cong [where f = sum_list] map_cong refl) (simp add: msN)
  also have "\<dots> = mset ?L"
  proof (rule mset_by_destination)
    show "\<forall>x\<in>set ?L. upper_bound ps x < k"
      using lp upper_bound_le [of ps] by (auto intro: le_less_trans)
  qed
  finally have m: "mset (concat ?N) = mset ?L" .
  from g s m show ?thesis by blast
qed

text \<open>
  C1, as the code has it: for an input whose records hold no NUL byte, run by
  \<open>nproc \<ge> 1\<close> processes, on a non-empty input or by one process, the run completes and
  the records it writes are in non-decreasing order and are, as a multiset, the records
  read. (A record that holds a NUL byte and is sent to another process arrives cut before
  that byte.)
\<close>

theorem sample_sort_sorts:
  assumes "1 \<le> nproc"
    and "\<forall>r\<in>set all_data. NUL \<notin> set r"
    and "all_data \<noteq> [] \<or> nproc = 1"
  shows "\<exists>final_all. sample_sort nproc all_data = Inr final_all \<and>
           sorted final_all \<and> mset final_all = mset all_data"
proof -
  let ?parts = "scatter nproc all_data"
  let ?locals = "map sequential_sort ?parts"
  let ?L = "concat ?locals"
  let ?samples = "map (select_samples nproc) ?locals"
  have k: "0 < nproc" using assms(1) by simp
  have len: "length ?locals = nproc" by (simp add: scatter_length)
  have "mset ?L = mset (concat ?parts)" by (rule mset_sorted_locals)
  then have mL: "mset ?L = mset all_data"
    by (simp only: scatter_concat_clean [OF k assms(2)])
  then have "set_mset (mset ?L) = set_mset (mset all_data)" by simp
  then have sL: "set ?L = set all_data" by (simp only: set_mset_mset)
  have clean: "\<forall>r\<in>set ?L. NUL \<notin> set r" using assms(2) sL by blast
  have ssub: "set (concat ?samples) \<subseteq> set ?L"
    using select_samples_subset by fastforce
  then have "\<forall>r\<in>set (concat ?samples). NUL \<notin> set r" using clean by blast
  then have g: "gather_samples ?samples = concat ?samples" by (rule gather_samples_clean)
  have ne: "gather_samples ?samples \<noteq> [] \<or> nproc = 1"
  proof (cases "nproc = 1")
    case True
    then show ?thesis by simp
  next
    case False
    with assms(3) have d: "all_data \<noteq> []" by simp
    have "?parts ! 0 \<noteq> []" by (rule scatter_master_nonempty [OF k d])
    then have "length (?parts ! 0) \<noteq> 0" by simp
    then have "0 < length (?locals ! 0)"
      using k by (simp add: scatter_length sequential_sort_def)
    then have "length (select_samples nproc (?locals ! 0)) = nproc - 1"
      by (rule select_samples_length)
    then have "length (?samples ! 0) = nproc - 1" using k len by simp
    then have "?samples ! 0 \<noteq> []" using False k by auto
    moreover have "?samples \<noteq> []" using len k by auto
    ultimately have "gather_samples ?samples \<noteq> []" by (rule gather_samples_nonempty [rotated])
    then show ?thesis by simp
  qed
  from select_pivots_sound [OF ne] obtain chosen where
    sel: "select_pivots nproc (gather_samples ?samples) = Inr chosen"
    and srt: "sorted chosen"
    and sub: "set chosen \<subseteq> set (gather_samples ?samples)"
    and lch: "length chosen = nproc - 1"
    by blast
  have "\<forall>r\<in>set chosen. NUL \<notin> set r" using sub g ssub clean by auto
  then have bc: "bcast_pivots chosen = chosen"
    by (simp add: bcast_pivots_def map_transfer_id)
  let ?N = "map sequential_sort (exchange nproc (map (partition_records nproc chosen) ?locals))"
  have run: "sample_sort nproc all_data = Inr (gather_final ?N)"
    using sel bc by (simp add: sample_sort_def Let_def)
  from pipeline_clean [OF k len lch srt clean]
  have "gather_final ?N = concat ?N" "sorted (concat ?N)" "mset (concat ?N) = mset ?L"
    by blast+
  with run mL show ?thesis by simp
qed

theorem sample_sort_sorts_witness:
  "(1::nat) \<le> 2 \<and>
   NUL \<notin> set ''TT'' \<and> NUL \<notin> set ''AA'' \<and> NUL \<notin> set ''GG'' \<and> NUL \<notin> set ''CC'' \<and>
   [''TT'', ''AA'', ''GG'', ''CC''] \<noteq> [] \<and>
   sample_sort 2 [''TT'', ''AA'', ''GG'', ''CC''] = Inr [''AA'', ''CC'', ''GG'', ''TT''] \<and>
   sorted [''AA'', ''CC'', ''GG'', ''TT''] \<and>
   mset [''AA'', ''CC'', ''GG'', ''TT''] = mset [''TT'', ''AA'', ''GG'', ''CC'']"
proof -
  have h1: "(1::nat) \<le> 2" by simp
  have n: "NUL \<notin> set ''TT''" "NUL \<notin> set ''AA''" "NUL \<notin> set ''GG''" "NUL \<notin> set ''CC''"
    by (simp_all add: NUL_def)
  then have h2: "\<forall>r\<in>set [''TT'', ''AA'', ''GG'', ''CC'']. NUL \<notin> set r" by simp
  have ne: "[''TT'', ''AA'', ''GG'', ''CC''] \<noteq> []" by simp
  then have h3: "[''TT'', ''AA'', ''GG'', ''CC''] \<noteq> [] \<or> (2::nat) = 1" by blast
  have run: "sample_sort 2 [''TT'', ''AA'', ''GG'', ''CC''] = Inr [''AA'', ''CC'', ''GG'', ''TT'']"
    by code_simp
  from sample_sort_sorts [OF h1 h2 h3] obtain final_all where
    f: "sample_sort 2 [''TT'', ''AA'', ''GG'', ''CC''] = Inr final_all"
       "sorted final_all" "mset final_all = mset [''TT'', ''AA'', ''GG'', ''CC'']"
    by blast
  from f(1) run have "final_all = [''AA'', ''CC'', ''GG'', ''TT'']" by simp
  with f(2,3) have "sorted [''AA'', ''CC'', ''GG'', ''TT'']"
    "mset [''AA'', ''CC'', ''GG'', ''TT''] = mset [''TT'', ''AA'', ''GG'', ''CC'']"
    by blast+
  with h1 n ne run show ?thesis by blast
qed

theorem sample_sort_sorts_counterexample:
  "sample_sort 2 [''C'', [CHR ''A'', NUL, CHR ''B''] ] = Inr [''A'', ''C''] \<and>
   mset [''A'', ''C''] \<noteq> mset [''C'', [CHR ''A'', NUL, CHR ''B''] ]"
proof -
  have a: "sample_sort 2 [''C'', [CHR ''A'', NUL, CHR ''B''] ] = Inr [''A'', ''C'']" by code_simp
  have b: "mset [''A'', ''C''] \<noteq> mset [''C'', [CHR ''A'', NUL, CHR ''B''] ]" by simp
  from a b show ?thesis by blast
qed

end
